theory Spec2Isabelle
  imports Complex_Main
begin

section \<open>Decoded JSON data\<close>

text \<open>
  Both programs read decoded JSON objects through \<^verbatim>\<open>dict.get\<close>. An object is a
  record whose fields are optional: \<open>None\<close> is an absent key. JSON numbers are exact
  rationals (the rounding of binary floating point is not part of the model); a lane
  number is an integer.
\<close>

type_synonym number = rat

record json_note =
  direction :: "int option"
  strumTime :: "number option"
  conductorTime :: "number option"
  isHoldNote :: "bool option"
  length_ms :: "number option"
  mayHit :: "bool option"
  hasMissed :: "bool option"
  hasBeenHit :: "bool option"
  tooEarly :: "bool option"

record game_state =
  mainState :: "string option"
  isPlaying :: "bool option"
  timestamp :: "number option"
  notes_list :: "json_note list option"

text \<open>\<^verbatim>\<open>d.get(key, default)\<close>.\<close>

definition dict_get :: "'a option \<Rightarrow> 'a \<Rightarrow> 'a" where
  "dict_get entry dflt = (case entry of None \<Rightarrow> dflt | Some v \<Rightarrow> v)"

section \<open>The socket server (src/AI/test_socket_server.py)\<close>

subsection \<open>Hold tracker state\<close>

text \<open>
  \<^verbatim>\<open>active_holds\<close>: a dictionary from direction to the data of the hold in progress.
\<close>

record hold_data =
  start_time :: number
  end_time :: number
  held_note :: json_note

type_synonym holds = "int \<rightharpoonup> hold_data"

definition HIT_WINDOW_MS :: number where
  "HIT_WINDOW_MS = 160"

definition direction_map :: "int \<rightharpoonup> string" where
  "direction_map = [0 \<mapsto> ''left'', 1 \<mapsto> ''down'', 2 \<mapsto> ''up'', 3 \<mapsto> ''right'']"

definition get_key_for_direction :: "int \<Rightarrow> string" where
  "get_key_for_direction d = dict_get (direction_map d) ''none''"

subsection \<open>analyze_notes\<close>

text \<open>
  The inner loop over \<^verbatim>\<open>notes_data\<close> for one direction: the list
  \<^verbatim>\<open>hitable_notes\<close> of pairs (note, absolute time difference), in arrival order.
\<close>

fun hitable_notes :: "json_note list \<Rightarrow> int \<Rightarrow> number \<Rightarrow> (json_note \<times> number) list" where
  "hitable_notes [] d current_conductor_time = []"
| "hitable_notes (n # ns) d current_conductor_time =
     (if direction n = Some d \<and> \<not> dict_get (hasBeenHit n) False
         \<and> \<not> dict_get (hasMissed n) False \<and> dict_get (mayHit n) False
      then
        (let strum_time = dict_get (strumTime n) 0;
             conductor_time = dict_get (conductorTime n) current_conductor_time;
             time_difference = strum_time - conductor_time;
             hit_window_start = - HIT_WINDOW_MS;
             hit_window_end = HIT_WINDOW_MS
         in if hit_window_start \<le> time_difference \<and> time_difference \<le> hit_window_end
            then (n, \<bar>time_difference\<bar>) # hitable_notes ns d current_conductor_time
            else hitable_notes ns d current_conductor_time)
      else hitable_notes ns d current_conductor_time)"

text \<open>
  The first loop of \<^verbatim>\<open>analyze_notes\<close>: every hold whose end time has been reached
  is deleted from \<^verbatim>\<open>active_holds\<close>.
\<close>

definition release_expired :: "number \<Rightarrow> holds \<Rightarrow> holds" where
  "release_expired current_conductor_time active_holds =
     (\<lambda>d. case active_holds d of
            None \<Rightarrow> None
          | Some hold \<Rightarrow>
              if current_conductor_time \<ge> end_time hold then None else Some hold)"

text \<open>
  One iteration of the loop over the directions. The list sort of Python is stable, as
  \<open>sort_key\<close> is, so the head of the sorted list is the first-seen note among those of
  least absolute difference.
\<close>

definition lane_step ::
  "json_note list \<Rightarrow> number \<Rightarrow> string list \<times> holds \<Rightarrow> int \<Rightarrow> string list \<times> holds" where
  "lane_step notes_data current_conductor_time st d =
     (let (actions, active_holds) = st in
      if d \<in> dom active_holds then (actions @ [get_key_for_direction d], active_holds)
      else
        (let hitable = hitable_notes notes_data d current_conductor_time in
         if hitable \<noteq> [] then
           (let (best_note, best_timing_diff) = hd (sort_key snd hitable) in
            if best_timing_diff \<le> 80 then
              (let key_name = get_key_for_direction d in
               if key_name \<noteq> ''none'' then
                 (if dict_get (isHoldNote best_note) False then
                    (let note_length = dict_get (length_ms best_note) 0;
                         hold_duration_ms = max note_length 200
                     in (actions @ [key_name],
                         active_holds(d \<mapsto>
                           \<lparr>start_time = current_conductor_time,
                            end_time = current_conductor_time + hold_duration_ms,
                            held_note = best_note\<rparr>)))
                  else (actions @ [key_name], active_holds))
               else (actions, active_holds))
            else (actions, active_holds))
         else (actions, active_holds)))"

text \<open>
  \<^verbatim>\<open>analyze_notes(notes_data, game_timestamp)\<close> returns the actions and leaves
  \<^verbatim>\<open>active_holds\<close> updated; \<open>now\<close> is the reading of the wall clock
  (\<^verbatim>\<open>time.time() * 1000\<close>) used when no game timestamp is passed. The first
  statement returns the empty list for an empty \<^verbatim>\<open>notes_data\<close>, before the expiry
  loop is reached.
\<close>

definition analyze_notes ::
  "json_note list \<Rightarrow> number option \<Rightarrow> number \<Rightarrow> holds \<Rightarrow> string list \<times> holds" where
  "analyze_notes notes_data game_timestamp now active_holds =
     (if notes_data = [] then ([], active_holds)
      else
        (let current_conductor_time = dict_get game_timestamp now
         in foldl (lane_step notes_data current_conductor_time)
              ([], release_expired current_conductor_time active_holds)
              [0, 1, 2, 3]))"

subsection \<open>format_actions\<close>

fun unique_actions :: "string list \<Rightarrow> string list \<Rightarrow> string list" where
  "unique_actions acc [] = acc"
| "unique_actions acc (action # actions) =
     unique_actions (if action \<in> set acc then acc else acc @ [action]) actions"

fun join :: "string \<Rightarrow> string list \<Rightarrow> string" where
  "join sep [] = []"
| "join sep [x] = x"
| "join sep (x # y # ys) = x @ sep @ join sep (y # ys)"

definition format_actions :: "string list \<Rightarrow> string" where
  "format_actions actions =
     (if actions = [] then ''none'' else join '','' (unique_actions [] actions))"

subsection \<open>One decoded snapshot\<close>

text \<open>
  The body of the receive loop once a line has been decoded to an object: the response
  line sent back and the new \<^verbatim>\<open>active_holds\<close>.
\<close>

definition newline :: char where
  "newline = CHR 0x0A"

definition snapshot_actions :: "number \<Rightarrow> game_state \<Rightarrow> holds \<Rightarrow> string list \<times> holds" where
  "snapshot_actions now gs active_holds =
     (let notes = dict_get (notes_list gs) [];
          game_timestamp = dict_get (timestamp gs) now
      in analyze_notes notes (Some game_timestamp) now active_holds)"

definition process_state :: "number \<Rightarrow> game_state \<Rightarrow> holds \<Rightarrow> string \<times> holds" where
  "process_state now gs active_holds =
     (if mainState gs = Some ''PLAYING'' \<and> dict_get (isPlaying gs) False then
        (let (actions, active_holds') = snapshot_actions now gs active_holds;
             action_string = format_actions actions
         in (action_string @ [newline], active_holds'))
      else (''none'' @ [newline], Map.empty))"


subsection \<open>The receive loop\<close>

text \<open>
  \<^verbatim>\<open>str.strip()\<close> removes leading and trailing whitespace. Text is a list of
  8-bit characters here, so the whitespace characters are those of Python below code
  point 256.
\<close>

definition is_space :: "char \<Rightarrow> bool" where
  "is_space c = (c \<in> set [CHR 0x09, CHR 0x0A, CHR 0x0B, CHR 0x0C, CHR 0x0D, CHR 0x1C, CHR 0x1D,
                           CHR 0x1E, CHR 0x1F, CHR 0x20, CHR 0x85, CHR 0xA0])"

definition strip :: "string \<Rightarrow> string" where
  "strip s = rev (dropWhile is_space (rev (dropWhile is_space s)))"

text \<open>
  The inner loop \<^verbatim>\<open>while '\n' in buffer: line, buffer = buffer.split('\n', 1)\<close>:
  the stripped non-blank lines, in order, and the buffer left over.
\<close>

function read_lines :: "string \<Rightarrow> string list \<times> string" where
  "read_lines buffer =
     (if newline \<in> set buffer then
        (let line = takeWhile (\<lambda>c. c \<noteq> newline) buffer;
             rest = tl (dropWhile (\<lambda>c. c \<noteq> newline) buffer);
             (lines, buffer') = read_lines rest
         in ((if strip line \<noteq> [] then [strip line] else []) @ lines, buffer'))
      else ([], buffer))"
  by pat_completeness auto
termination
proof (relation "measure length")
  show "wf (measure length)" by simp
next
  fix buffer :: string and x xa
  assume nl: "newline \<in> set buffer" and xa: "xa = tl (dropWhile (\<lambda>c. c \<noteq> newline) buffer)"
  from nl have ne: "dropWhile (\<lambda>c. c \<noteq> newline) buffer \<noteq> []"
    by (simp add: dropWhile_eq_Nil_conv)
  have "length (dropWhile (\<lambda>c. c \<noteq> newline) buffer) \<le> length buffer"
    by (rule length_dropWhile_le)
  with ne xa show "(xa, buffer) \<in> measure length"
    by (cases "dropWhile (\<lambda>c. c \<noteq> newline) buffer") auto
qed

declare read_lines.simps [simp del]

text \<open>\<^verbatim>\<open>buffer += data\<close>, then the inner loop.\<close>

definition server_feed :: "string \<Rightarrow> string \<Rightarrow> string list \<times> string" where
  "server_feed buffer data = read_lines (buffer @ data)"





section \<open>The client (src/ai_client.py)\<close>

subsection \<open>Reading lines\<close>

text \<open>\<^verbatim>\<open>str.split('\n')\<close>: the pieces between the newlines, at least one.\<close>

fun split_nl :: "string \<Rightarrow> string list" where
  "split_nl [] = [] # []"
| "split_nl (c # cs) =
     (if c = newline then [] # split_nl cs
      else (case split_nl cs of [] \<Rightarrow> [c] # [] | piece # pieces \<Rightarrow> (c # piece) # pieces))"

text \<open>
  \<^verbatim>\<open>buffer += text; lines = buffer.split('\n'); buffer = lines.pop()\<close>; the lines
  that are not blank go on to \<^verbatim>\<open>json.loads\<close>, not stripped.
\<close>

definition client_feed :: "string \<Rightarrow> string \<Rightarrow> string list \<times> string" where
  "client_feed buffer text =
     (let lines = split_nl (buffer @ text)
      in (filter (\<lambda>line. strip line \<noteq> []) (butlast lines), last lines))"

subsection \<open>process_message and hit_note\<close>

record message =
  msg_type :: "string option"
  currentTime :: "number option"
  currentNotes :: "json_note list option"

text \<open>\<^verbatim>\<open>scheduled_notes\<close>: a dictionary from note id to \<^verbatim>\<open>True\<close>.\<close>

type_synonym scheduled = "number \<rightharpoonup> bool"

record input_command =
  keyCode :: int
  pressed :: bool

text \<open>
  What a thread running \<^verbatim>\<open>hit_note\<close> does, in order: it sleeps (the argument is in
  seconds) and sends commands. \<^verbatim>\<open>send_command\<close> swallows every exception.
\<close>

datatype event = Sleep number | Send input_command

definition hit_note :: "int \<Rightarrow> number \<Rightarrow> event list" where
  "hit_note d delay_ms =
     (let delay_sec = delay_ms / 1000;
          press_command = \<lparr>keyCode = d, pressed = True\<rparr>;
          release_command = \<lparr>keyCode = d, pressed = False\<rparr>
      in [Sleep delay_sec, Send press_command, Sleep (6 / 100), Send release_command])"

definition note_id :: "json_note \<Rightarrow> number" where
  "note_id n = dict_get (strumTime n) 0 * 10 + of_int (dict_get (direction n) 0)"

text \<open>
  The loop over \<^verbatim>\<open>current_notes\<close>. The state is \<^verbatim>\<open>scheduled_notes\<close> and the
  threads started so far, each with its arguments (direction, hit_delay).
\<close>

fun schedule_notes ::
  "number \<Rightarrow> json_note list \<Rightarrow> scheduled \<times> (int \<times> number) list
     \<Rightarrow> scheduled \<times> (int \<times> number) list" where
  "schedule_notes current_time [] st = st"
| "schedule_notes current_time (n # ns) (scheduled_notes, threads) =
     (if dict_get (mayHit n) False \<and> \<not> dict_get (hasMissed n) False
         \<and> \<not> dict_get (tooEarly n) True
      then
        (let d = dict_get (direction n) 0;
             strum_time = dict_get (strumTime n) 0;
             note_id = strum_time * 10 + of_int d
         in if note_id \<notin> dom scheduled_notes then
              (let time_until_hit = strum_time - current_time
               in if 0 \<le> time_until_hit \<and> time_until_hit \<le> 150 then
                    (let hit_delay = max 0 (time_until_hit - 30)
                     in schedule_notes current_time ns
                          (scheduled_notes(note_id \<mapsto> True), threads @ [(d, hit_delay)]))
                  else schedule_notes current_time ns (scheduled_notes, threads))
            else schedule_notes current_time ns (scheduled_notes, threads))
      else schedule_notes current_time ns (scheduled_notes, threads))"

definition process_message :: "message \<Rightarrow> scheduled \<Rightarrow> scheduled \<times> (int \<times> number) list" where
  "process_message msg scheduled_notes =
     (if msg_type msg = Some ''noteData'' then
        (let current_time = dict_get (currentTime msg) 0;
             current_notes = dict_get (currentNotes msg) [];
             current_note_ids = map note_id current_notes;
             kept = scheduled_notes |` set current_note_ids
         in schedule_notes current_time current_notes (kept, []))
      else (scheduled_notes, []))"

section \<open>The specification's words\<close>

text \<open>
  The definitions of this section follow the specification, not the code; the theorems
  below compare the two.
\<close>

text \<open>
  The time difference of a note: its strum time minus the reference time, which is the
  note's own conductor time if present and the snapshot's timestamp otherwise.
\<close>

definition time_difference :: "number \<Rightarrow> json_note \<Rightarrow> number" where
  "time_difference snapshot_timestamp n =
     dict_get (strumTime n) 0 - dict_get (conductorTime n) snapshot_timestamp"

text \<open>The candidates of lane \<open>L\<close>: eligible notes within the window of 160 ms.\<close>

definition spec_candidates :: "json_note list \<Rightarrow> int \<Rightarrow> number \<Rightarrow> json_note list" where
  "spec_candidates ns L t =
     filter (\<lambda>n. direction n = Some L \<and> dict_get (hasBeenHit n) False = False
                 \<and> dict_get (hasMissed n) False = False \<and> dict_get (mayHit n) False = True
                 \<and> - 160 \<le> time_difference t n \<and> time_difference t n \<le> 160) ns"

text \<open>The first-seen candidate among those of minimum absolute time difference.\<close>

definition spec_choice :: "json_note list \<Rightarrow> number \<Rightarrow> json_note option" where
  "spec_choice cands t =
     find (\<lambda>n. \<forall>m \<in> set cands. \<bar>time_difference t n\<bar> \<le> \<bar>time_difference t m\<bar>) cands"

text \<open>Press: there is a candidate, and the chosen one is within 80 ms.\<close>

definition spec_press :: "json_note list \<Rightarrow> int \<Rightarrow> number \<Rightarrow> bool" where
  "spec_press ns L t =
     (case spec_choice (spec_candidates ns L t) t of
        None \<Rightarrow> False
      | Some n \<Rightarrow> \<bar>time_difference t n\<bar> \<le> 80)"

text \<open>A hold is alive while the current conductor time is before its end time.\<close>

definition hold_alive :: "holds \<Rightarrow> number \<Rightarrow> int \<Rightarrow> bool" where
  "hold_alive active_holds t d =
     (case active_holds d of None \<Rightarrow> False | Some hold \<Rightarrow> t < end_time hold)"

text \<open>The end time of a new hold: reference time plus the length, at least 200 ms.\<close>

definition spec_hold_end_time :: "number \<Rightarrow> json_note \<Rightarrow> number" where
  "spec_hold_end_time snapshot_timestamp n =
     dict_get (conductorTime n) snapshot_timestamp + max (dict_get (length_ms n) 0) 200"

text \<open>
  What the client checks before it starts a thread for a note, and the arguments of
  that thread.
\<close>

definition schedulable :: "number \<Rightarrow> json_note \<Rightarrow> bool" where
  "schedulable current_time n \<longleftrightarrow>
     dict_get (mayHit n) False \<and> \<not> dict_get (hasMissed n) False \<and> \<not> dict_get (tooEarly n) True
     \<and> 0 \<le> dict_get (strumTime n) 0 - current_time
     \<and> dict_get (strumTime n) 0 - current_time \<le> 150"

definition thread_args :: "number \<Rightarrow> json_note \<Rightarrow> int \<times> number" where
  "thread_args current_time n =
     (dict_get (direction n) 0, max 0 (dict_get (strumTime n) 0 - current_time - 30))"

section \<open>Example inputs\<close>

definition tap_note :: "int \<Rightarrow> number \<Rightarrow> json_note" where
  "tap_note d strum =
     \<lparr>direction = Some d, strumTime = Some strum, conductorTime = None,
      isHoldNote = Some False, length_ms = Some 0, mayHit = Some True,
      hasMissed = Some False, hasBeenHit = Some False, tooEarly = Some False\<rparr>"

definition hold_note :: "int \<Rightarrow> number \<Rightarrow> number \<Rightarrow> number \<Rightarrow> json_note" where
  "hold_note d strum conductor len =
     \<lparr>direction = Some d, strumTime = Some strum, conductorTime = Some conductor,
      isHoldNote = Some True, length_ms = Some len, mayHit = Some True,
      hasMissed = Some False, hasBeenHit = Some False, tooEarly = Some False\<rparr>"

definition playing :: "number \<Rightarrow> json_note list \<Rightarrow> game_state" where
  "playing t ns =
     \<lparr>mainState = Some ''PLAYING'', isPlaying = Some True, timestamp = Some t,
      notes_list = Some ns\<rparr>"

definition waiting :: game_state where
  "waiting =
     \<lparr>mainState = Some ''WAITING'', isPlaying = Some True, timestamp = Some 10,
      notes_list = Some []\<rparr>"

definition hold_until :: "number \<Rightarrow> hold_data" where
  "hold_until t = \<lparr>start_time = 1000, end_time = t, held_note = hold_note 0 1000 1000 500\<rparr>"

definition client_note :: "int \<Rightarrow> number \<Rightarrow> bool \<Rightarrow> json_note" where
  "client_note d strum hit =
     \<lparr>direction = Some d, strumTime = Some strum, conductorTime = None, isHoldNote = None,
      length_ms = None, mayHit = Some True, hasMissed = Some False, hasBeenHit = Some hit,
      tooEarly = Some False\<rparr>"

definition note_data :: "number \<Rightarrow> json_note list \<Rightarrow> message" where
  "note_data t ns = \<lparr>msg_type = Some ''noteData'', currentTime = Some t, currentNotes = Some ns\<rparr>"


section \<open>Properties of the evaluator\<close>

text \<open>The list built by the inner loop is the list of the specification's candidates.\<close>

lemma hitable_notes_spec:
  "hitable_notes ns d t = map (\<lambda>n. (n, \<bar>time_difference t n\<bar>)) (spec_candidates ns d t)"
  by (induction ns) (simp_all add: spec_candidates_def time_difference_def HIT_WINDOW_MS_def Let_def)

text \<open>
  The head of a stable sort is the first element of least key; this is how the code's
  \<^verbatim>\<open>sort\<close> and \<^verbatim>\<open>hitable_notes[0]\<close> break ties.
\<close>

lemma hd_insort_key:
  "hd (insort_key f x ys) = (if ys = [] \<or> f x \<le> f (hd ys) then x else hd ys)"
  by (cases ys) simp_all

lemma sort_key_Nil_iff: "sort_key f xs = [] \<longleftrightarrow> xs = []"
  by (metis length_sort list.size(3) length_0_conv)

lemma hd_sort_key_least:
  "xs \<noteq> [] \<Longrightarrow> y \<in> set xs \<Longrightarrow> f (hd (sort_key f xs)) \<le> f y"
proof -
  assume ne: "xs \<noteq> []" and y: "y \<in> set xs"
  have s: "sorted (map f (sort_key f xs))" by (rule sorted_sort_key)
  have "sort_key f xs \<noteq> []" using ne by (simp add: sort_key_Nil_iff)
  then obtain z zs where zs: "sort_key f xs = z # zs" by (cases "sort_key f xs") auto
  have "y \<in> set (sort_key f xs)" using y by simp
  then show ?thesis using s zs by auto
qed

lemma hd_sort_key_first_least:
  "xs \<noteq> [] \<Longrightarrow> find (\<lambda>x. \<forall>y \<in> set xs. f x \<le> f y) xs = Some (hd (sort_key f xs))"
proof (induction xs)
  case Nil then show ?case by simp
next
  case (Cons a as)
  show ?case
  proof (cases "as = []")
    case True then show ?thesis by simp
  next
    case False
    let ?h = "hd (sort_key f as)"
    have IH: "find (\<lambda>x. \<forall>y \<in> set as. f x \<le> f y) as = Some ?h" using Cons.IH False by simp
    have least: "\<forall>y \<in> set as. f ?h \<le> f y" using hd_sort_key_least[OF False] by blast
    have hmem: "?h \<in> set as"
      by (metis False hd_in_set set_sort sort_key_Nil_iff)
    have sne: "sort_key f as \<noteq> []" using False by (simp add: sort_key_Nil_iff)
    show ?thesis
    proof (cases "f a \<le> f ?h")
      case True
      then have "\<forall>y \<in> set (a # as). f a \<le> f y" using least by auto
      moreover have "hd (sort_key f (a # as)) = a" using True by (simp add: hd_insort_key)
      ultimately show ?thesis by simp
    next
      case Fa: False
      then have notall: "\<not> (\<forall>y \<in> set (a # as). f a \<le> f y)" using hmem by auto
      have hd_eq: "hd (sort_key f (a # as)) = ?h" using Fa sne by (simp add: hd_insort_key)
      have fh: "f ?h \<le> f a" using Fa by simp
      have "find (\<lambda>x. \<forall>y \<in> set (a # as). f x \<le> f y) as = find (\<lambda>x. \<forall>y \<in> set as. f x \<le> f y) as"
      proof (rule find_cong[OF refl])
        fix x assume "x \<in> set as"
        then have "f ?h \<le> f x" using least by blast
        then show "(\<forall>y \<in> set (a # as). f x \<le> f y) = (\<forall>y \<in> set as. f x \<le> f y)"
          using fh hmem by (auto intro: order_trans)
      qed
      moreover have "find (\<lambda>x. \<forall>y \<in> set (a # as). f x \<le> f y) (a # as)
                   = find (\<lambda>x. \<forall>y \<in> set (a # as). f x \<le> f y) as"
        by (simp only: find.simps notall if_False)
      ultimately show ?thesis using IH hd_eq by (simp only:)
    qed
  qed
qed

lemma find_map_option:
  "find P (map g xs) = map_option g (find (\<lambda>x. P (g x)) xs)"
  by (induction xs) simp_all

lemma spec_choice_None: "spec_choice cands t = None \<Longrightarrow> cands = []"
  using hd_sort_key_first_least[of cands "\<lambda>n. \<bar>time_difference t n\<bar>"]
  by (auto simp: spec_choice_def)

text \<open>The expiry loop keeps exactly the holds that are alive.\<close>

lemma release_expired_None_iff:
  "release_expired t hs d = None \<longleftrightarrow> \<not> hold_alive hs t d"
  by (auto simp: release_expired_def hold_alive_def split: option.splits)

lemma release_expired_Some_iff:
  "release_expired t hs d = Some h \<longleftrightarrow> hs d = Some h \<and> t < end_time h"
  by (auto simp: release_expired_def split: option.splits)

text \<open>
  An iteration for direction \<open>d\<close> appends to the actions, reads the entry of \<open>d\<close> in
  \<^verbatim>\<open>active_holds\<close> only and writes no other entry, so the loop over distinct
  directions is a product of independent steps.
\<close>

lemma lane_step_fst:
  "fst (lane_step ns t (acts, hs) d) = acts @ fst (lane_step ns t ([], hs) d)"
  by (simp add: lane_step_def Let_def split: prod.splits)

lemma lane_step_snd_other:
  "d' \<noteq> d \<Longrightarrow> snd (lane_step ns t (acts, hs) d) d' = hs d'"
  by (simp add: lane_step_def Let_def split: prod.splits)

lemma lane_step_snd_acts:
  "snd (lane_step ns t (acts, hs) d) = snd (lane_step ns t ([], hs) d)"
  by (simp add: lane_step_def Let_def split: prod.splits)

lemma lane_step_local_fst:
  "hs d = hs' d \<Longrightarrow> fst (lane_step ns t (acts, hs) d) = fst (lane_step ns t (acts, hs') d)"
  by (simp add: lane_step_def Let_def dom_def split: prod.splits)

lemma lane_step_local_snd:
  "hs d = hs' d \<Longrightarrow> snd (lane_step ns t (acts, hs) d) d = snd (lane_step ns t (acts, hs') d) d"
  by (simp add: lane_step_def Let_def dom_def split: prod.splits)

lemma foldl_lane_step:
  "distinct ds \<Longrightarrow>
   foldl (lane_step ns t) (acts, hs) ds =
     (acts @ concat (map (\<lambda>d. fst (lane_step ns t ([], hs) d)) ds),
      \<lambda>d. if d \<in> set ds then snd (lane_step ns t ([], hs) d) d else hs d)"
proof (induction ds arbitrary: acts hs)
  case Nil
  then show ?case by simp
next
  case (Cons a ds)
  obtain acts' hs' where step: "lane_step ns t (acts, hs) a = (acts', hs')"
    by (cases "lane_step ns t (acts, hs) a")
  have acts': "acts' = acts @ fst (lane_step ns t ([], hs) a)"
    using lane_step_fst[of ns t acts hs a] step by simp
  have other: "\<And>d. d \<noteq> a \<Longrightarrow> hs' d = hs d"
    using lane_step_snd_other[of _ a ns t acts hs] step by simp
  have own: "hs' a = snd (lane_step ns t ([], hs) a) a"
    using lane_step_snd_acts[of ns t acts hs a] step by simp
  have dist: "distinct ds" and notin: "a \<notin> set ds" using Cons.prems by auto
  have fsts: "map (\<lambda>d. fst (lane_step ns t ([], hs') d)) ds
            = map (\<lambda>d. fst (lane_step ns t ([], hs) d)) ds"
  proof (rule map_cong[OF refl])
    fix d assume "d \<in> set ds"
    then have "d \<noteq> a" using notin by auto
    then have "hs' d = hs d" by (rule other)
    then show "fst (lane_step ns t ([], hs') d) = fst (lane_step ns t ([], hs) d)"
      by (rule lane_step_local_fst)
  qed
  have snds: "\<And>d. d \<in> set ds \<Longrightarrow>
      snd (lane_step ns t ([], hs') d) d = snd (lane_step ns t ([], hs) d) d"
  proof -
    fix d assume "d \<in> set ds"
    then have "d \<noteq> a" using notin by auto
    then have "hs' d = hs d" by (rule other)
    then show "snd (lane_step ns t ([], hs') d) d = snd (lane_step ns t ([], hs) d) d"
      by (rule lane_step_local_snd)
  qed
  show ?case
    using Cons.IH[OF dist, of acts' hs'] step acts' fsts own other snds notin
    by (auto simp: fun_eq_iff)
qed

lemma lane_step_press:
  "fst (lane_step ns t ([], hs) d) =
     (if d \<in> dom hs \<or> (spec_press ns d t \<and> get_key_for_direction d \<noteq> ''none'')
      then [get_key_for_direction d] else [])"
proof -
  let ?c = "spec_candidates ns d t"
  let ?f = "\<lambda>n. \<bar>time_difference t n\<bar>"
  have h: "hitable_notes ns d t = map (\<lambda>n. (n, ?f n)) ?c" by (rule hitable_notes_spec)
  show ?thesis
  proof (cases "?c = []")
    case True
    then show ?thesis
      by (simp add: lane_step_def Let_def h spec_press_def spec_choice_def)
  next
    case False
    have ne: "map (\<lambda>n. (n, ?f n)) ?c \<noteq> []" using False by simp
    have "find (\<lambda>x. \<forall>y \<in> set (map (\<lambda>n. (n, ?f n)) ?c). snd x \<le> snd y) (map (\<lambda>n. (n, ?f n)) ?c)
          = Some (hd (sort_key snd (map (\<lambda>n. (n, ?f n)) ?c)))"
      by (rule hd_sort_key_first_least[OF ne])
    then have "map_option (\<lambda>n. (n, ?f n)) (spec_choice ?c t)
          = Some (hd (sort_key snd (map (\<lambda>n. (n, ?f n)) ?c)))"
      by (simp add: spec_choice_def find_map_option)
    then obtain b where b: "spec_choice ?c t = Some b"
      and hd: "hd (sort_key snd (map (\<lambda>n. (n, ?f n)) ?c)) = (b, ?f b)"
      by (cases "spec_choice ?c t") auto
    show ?thesis using False b hd
      by (simp add: lane_step_def Let_def h spec_press_def)
  qed
qed

lemma lane_step_hold:
  assumes free: "hs d = None"
    and choice: "spec_choice (spec_candidates ns d t) t = Some n"
    and key: "get_key_for_direction d \<noteq> ''none''"
  shows "snd (lane_step ns t ([], hs) d) d =
     (if \<bar>time_difference t n\<bar> \<le> 80 \<and> dict_get (isHoldNote n) False
      then Some \<lparr>start_time = t, end_time = t + max (dict_get (length_ms n) 0) 200,
                 held_note = n\<rparr>
      else None)"
proof -
  let ?c = "spec_candidates ns d t"
  let ?f = "\<lambda>n. \<bar>time_difference t n\<bar>"
  have h: "hitable_notes ns d t = map (\<lambda>n. (n, ?f n)) ?c" by (rule hitable_notes_spec)
  have cne: "?c \<noteq> []" using choice by (auto simp: spec_choice_def)
  then have ne: "map (\<lambda>n. (n, ?f n)) ?c \<noteq> []" by simp
  have "find (\<lambda>x. \<forall>y \<in> set (map (\<lambda>n. (n, ?f n)) ?c). snd x \<le> snd y) (map (\<lambda>n. (n, ?f n)) ?c)
        = Some (hd (sort_key snd (map (\<lambda>n. (n, ?f n)) ?c)))"
    by (rule hd_sort_key_first_least[OF ne])
  then have hd: "hd (sort_key snd (map (\<lambda>n. (n, ?f n)) ?c)) = (n, ?f n)"
    using choice by (simp add: spec_choice_def find_map_option)
  show ?thesis using free cne hd key
    by (simp add: lane_step_def Let_def h dom_def)
qed

lemma lane_step_hold_kept:
  "hs d = Some h \<Longrightarrow> snd (lane_step ns t ([], hs) d) d = Some h"
  by (simp add: lane_step_def dom_def)

lemma key_for_lane:
  "get_key_for_direction 0 = ''left''" "get_key_for_direction 1 = ''down''"
  "get_key_for_direction 2 = ''up''" "get_key_for_direction 3 = ''right''"
  by (simp_all add: get_key_for_direction_def direction_map_def dict_get_def)

lemma analyze_notes_lanes:
  assumes "ns \<noteq> []"
  shows "analyze_notes ns (Some t) now hs =
     (concat (map (\<lambda>d. fst (lane_step ns t ([], release_expired t hs) d)) [0, 1, 2, 3]),
      \<lambda>d. if d \<in> set [0, 1, 2, 3]
           then snd (lane_step ns t ([], release_expired t hs) d) d
           else release_expired t hs d)"
proof -
  have d: "distinct [0, 1, 2, 3 :: int]" by simp
  show ?thesis
    using assms foldl_lane_step[OF d, of ns t "[]" "release_expired t hs"]
    by (simp only: analyze_notes_def dict_get_def option.case Let_def if_False append_Nil)
qed

lemma lane_in_actions:
  assumes ns: "ns \<noteq> []" and L: "L \<in> {0, 1, 2, 3}"
  shows "get_key_for_direction L \<in> set (fst (analyze_notes ns (Some t) now hs))
         \<longleftrightarrow> hold_alive hs t L \<or> spec_press ns L t"
proof -
  have dom: "\<And>d. d \<in> dom (release_expired t hs) \<longleftrightarrow> hold_alive hs t d"
    using release_expired_None_iff[of t hs] by (auto simp: dom_def)
  show ?thesis
    using L
    by (auto simp: analyze_notes_lanes[OF ns] lane_step_press dom key_for_lane)
qed

lemma lane_hold_after:
  assumes ns: "ns \<noteq> []" and L: "L \<in> {0, 1, 2, 3}"
  shows "snd (analyze_notes ns (Some t) now hs) L
         = snd (lane_step ns t ([], release_expired t hs) L) L"
  using L by (auto simp: analyze_notes_lanes[OF ns])

text \<open>
  When the notes of a snapshot are not empty, a hold that is alive is reported and kept,
  and a hold whose end time has been reached is removed.
\<close>

lemma live_hold_reported:
  assumes "dict_get (notes_list gs) [] \<noteq> []" and "L \<in> {0, 1, 2, 3}"
    and "active_holds L = Some h" and "dict_get (timestamp gs) now < end_time h"
  shows "get_key_for_direction L \<in> set (fst (snapshot_actions now gs active_holds))
         \<and> snd (snapshot_actions now gs active_holds) L = Some h"
proof -
  let ?ns = "dict_get (notes_list gs) []"
  let ?t = "dict_get (timestamp gs) now"
  have alive: "hold_alive active_holds ?t L" using assms(3,4) by (simp add: hold_alive_def)
  have rel: "release_expired ?t active_holds L = Some h"
    using assms(3,4) by (simp add: release_expired_Some_iff)
  have "snd (analyze_notes ?ns (Some ?t) now active_holds) L = Some h"
    using lane_hold_after[OF assms(1,2)] lane_step_hold_kept[where hs = "release_expired ?t active_holds" and d = L and h = h, OF rel] by simp
  then show ?thesis
    using lane_in_actions[OF assms(1,2), of ?t now active_holds] alive
    by (simp add: snapshot_actions_def Let_def)
qed

lemma expired_hold_released:
  assumes "dict_get (notes_list gs) [] \<noteq> []" and "L \<in> {0, 1, 2, 3}"
    and "active_holds L = Some h" and "end_time h \<le> dict_get (timestamp gs) now"
  shows "snd (snapshot_actions now gs active_holds) L \<noteq> Some h"
proof -
  let ?ns = "dict_get (notes_list gs) []"
  let ?t = "dict_get (timestamp gs) now"
  have free: "release_expired ?t active_holds L = None"
    using assms(3,4) by (simp add: release_expired_None_iff hold_alive_def)
  have key: "get_key_for_direction L \<noteq> ''none''" using assms(2) by (auto simp: key_for_lane)
  have eq: "snd (snapshot_actions now gs active_holds) L
        = snd (lane_step ?ns ?t ([], release_expired ?t active_holds) L) L"
    using lane_hold_after[OF assms(1,2)] by (simp add: snapshot_actions_def Let_def)
  show ?thesis
  proof (cases "spec_choice (spec_candidates ?ns L ?t) ?t")
    case None
    then have "spec_candidates ?ns L ?t = []"
      by (rule spec_choice_None)
    then show ?thesis using eq free
      by (simp add: lane_step_def Let_def hitable_notes_spec dom_def)
  next
    case (Some n)
    have "t + max (dict_get (length_ms n) 0) 200 \<noteq> end_time h" if "t = ?t" for t
      using assms(4) that by (simp add: max_def)
    then show ?thesis using eq lane_step_hold[where hs = "release_expired ?t active_holds" and d = L and ns = ?ns and t = ?t and n = n, OF free Some key] by auto
  qed
qed

text \<open>The comparisons with the window and with the acceptance threshold are not strict.\<close>

lemma window_and_acceptance_boundaries:
  "hitable_notes [tap_note 1 1160] 1 1000 = [(tap_note 1 1160, 160)]"
  "hitable_notes [tap_note 1 1161] 1 1000 = []"
  "fst (snapshot_actions 0 (playing 1000 [tap_note 1 1080]) Map.empty) = [''down'']"
  "fst (snapshot_actions 0 (playing 1000 [tap_note 1 1081]) Map.empty) = []"
  by (simp_all add: snapshot_actions_def playing_def analyze_notes_def lane_step_def
      release_expired_def tap_note_def dict_get_def HIT_WINDOW_MS_def
      get_key_for_direction_def direction_map_def Let_def)

section \<open>Properties of the line readers\<close>

lemma split_nl_ne: "split_nl s \<noteq> []"
  by (induction s) (auto split: list.splits)

lemma split_nl_no_newline: "piece \<in> set (split_nl s) \<Longrightarrow> newline \<notin> set piece"
  by (induction s arbitrary: piece) (auto split: list.splits if_splits)

lemma split_nl_takeWhile:
  "split_nl s = takeWhile (\<lambda>c. c \<noteq> newline) s #
     (if newline \<in> set s then split_nl (tl (dropWhile (\<lambda>c. c \<noteq> newline) s)) else [])"
  by (induction s) (auto split: list.splits simp: split_nl_ne)

lemma takeWhile_no_newline:
  "newline \<notin> set s \<Longrightarrow> takeWhile (\<lambda>c. c \<noteq> newline) s = s"
  by (induction s) auto

lemma split_nl_two: "newline \<in> set s \<Longrightarrow> \<exists>p q ps. split_nl s = p # q # ps"
  using split_nl_ne[of "tl (dropWhile (\<lambda>c. c \<noteq> newline) s)"]
  by (subst split_nl_takeWhile) (simp add: neq_Nil_conv)

text \<open>The server's loop yields the stripped non-blank pieces but the last, which it keeps.\<close>

lemma read_lines_split:
  "read_lines buffer =
     (map strip (filter (\<lambda>line. strip line \<noteq> []) (butlast (split_nl buffer))),
      last (split_nl buffer))"
proof (induction buffer rule: read_lines.induct)
  case (1 buffer)
  show ?case
  proof (cases "newline \<in> set buffer")
    case False
    then show ?thesis
      by (subst read_lines.simps, subst (1 2) split_nl_takeWhile) (simp add: takeWhile_no_newline)
  next
    case True
    let ?rest = "tl (dropWhile (\<lambda>c. c \<noteq> newline) buffer)"
    have IH: "read_lines ?rest =
       (map strip (filter (\<lambda>line. strip line \<noteq> []) (butlast (split_nl ?rest))),
        last (split_nl ?rest))"
      using 1[OF True refl refl] .
    show ?thesis
      using True IH
      by (subst read_lines.simps, subst (1 2) split_nl_takeWhile) (simp add: split_nl_ne Let_def)
  qed
qed

lemma last_split_nl: "last (split_nl s) = rev (takeWhile (\<lambda>c. c \<noteq> newline) (rev s))"
proof (induction s)
  case Nil then show ?case by simp
next
  case (Cons c cs)
  show ?case
  proof (cases "newline \<in> set cs")
    case True
    then have "takeWhile (\<lambda>c. c \<noteq> newline) (rev cs @ [c]) = takeWhile (\<lambda>c. c \<noteq> newline) (rev cs)"
      by (simp add: takeWhile_append1)
    moreover obtain p q ps where "split_nl cs = p # q # ps"
      using split_nl_two[OF True] by blast
    ultimately show ?thesis using Cons by auto
  next
    case False
    then have a: "split_nl cs = [cs]"
      by (subst split_nl_takeWhile) (simp add: takeWhile_no_newline)
    have b: "takeWhile (\<lambda>c. c \<noteq> newline) (rev cs @ [c]) =
         rev cs @ (if c = newline then [] else [c])"
      using False takeWhile_no_newline[of "rev cs"] by (auto simp: takeWhile_append)
    show ?thesis using a b by auto
  qed
qed

lemma last_dropWhile: "dropWhile P xs \<noteq> [] \<Longrightarrow> last (dropWhile P xs) = last xs"
  by (induction xs) (auto split: if_splits)

lemma dropWhile_id: "xs = [] \<or> \<not> P (hd xs) \<Longrightarrow> dropWhile P xs = xs"
  by (cases xs) auto

lemma strip_idem: "strip (strip s) = strip s"
proof -
  let ?a = "dropWhile is_space s"
  let ?b = "dropWhile is_space (rev ?a)"
  have "dropWhile is_space (rev ?b) = rev ?b"
  proof (cases "?b = []")
    case True show ?thesis unfolding True by simp
  next
    case False
    then have "last ?b = last (rev ?a)" by (rule last_dropWhile)
    moreover have ane: "?a \<noteq> []"
    proof
      assume "?a = []"
      then have "?b = []" by (simp only: rev.simps dropWhile.simps)
      with False show False by contradiction
    qed
    ultimately have "last ?b = hd ?a" by (simp add: last_rev)
    moreover have "\<not> is_space (hd ?a)" using ane by (rule hd_dropWhile)
    ultimately have "\<not> is_space (hd (rev ?b))" using False by (simp add: hd_rev)
    then show ?thesis by (intro dropWhile_id) simp
  qed
  then show ?thesis by (simp add: strip_def)
qed

lemma set_strip: "set (strip s) \<subseteq> set s"
  by (auto simp: strip_def dest!: set_dropWhileD)

lemma server_feed_split:
  "server_feed buffer data =
     (map strip (filter (\<lambda>line. strip line \<noteq> []) (butlast (split_nl (buffer @ data)))),
      last (split_nl (buffer @ data)))"
  by (simp add: server_feed_def read_lines_split)

lemma butlast_split_nl_no_newline:
  "piece \<in> set (butlast (split_nl s)) \<Longrightarrow> newline \<notin> set piece"
  using split_nl_no_newline in_set_butlastD by metis

section \<open>Properties of the client's scheduling\<close>

text \<open>Every thread started comes from a note that passed the checks.\<close>

lemma schedule_notes_threads:
  "thread \<in> set (snd (schedule_notes t ns (reg, threads))) \<Longrightarrow>
   thread \<in> set threads \<or> (\<exists>n \<in> set ns. schedulable t n \<and> thread = thread_args t n)"
proof (induction ns arbitrary: reg threads)
  case Nil
  then show ?case by simp
next
  case (Cons n ns)
  let ?id = "dict_get (strumTime n) 0 * 10 + of_int (dict_get (direction n) 0)"
  show ?case
  proof (cases "schedulable t n \<and> ?id \<notin> dom reg")
    case True
    then have eq: "schedule_notes t (n # ns) (reg, threads) =
        schedule_notes t ns (reg(?id \<mapsto> True), threads @ [thread_args t n])"
      by (simp add: schedulable_def thread_args_def Let_def)
    have "thread \<in> set (snd (schedule_notes t ns (reg(?id \<mapsto> True), threads @ [thread_args t n])))"
      using Cons.prems unfolding eq .
    then have "thread \<in> set (threads @ [thread_args t n])
        \<or> (\<exists>n \<in> set ns. schedulable t n \<and> thread = thread_args t n)"
      by (rule Cons.IH)
    then show ?thesis using True by auto
  next
    case False
    then have eq: "schedule_notes t (n # ns) (reg, threads) = schedule_notes t ns (reg, threads)"
      by (auto simp: schedulable_def Let_def)
    have "thread \<in> set (snd (schedule_notes t ns (reg, threads)))"
      using Cons.prems unfolding eq .
    then have "thread \<in> set threads
        \<or> (\<exists>n \<in> set ns. schedulable t n \<and> thread = thread_args t n)"
      by (rule Cons.IH)
    then show ?thesis by auto
  qed
qed

lemma process_message_threads:
  assumes "thread \<in> set (snd (process_message msg reg))"
  shows "msg_type msg = Some ''noteData'' \<and>
     (\<exists>n \<in> set (dict_get (currentNotes msg) []).
        schedulable (dict_get (currentTime msg) 0) n
        \<and> thread = thread_args (dict_get (currentTime msg) 0) n)"
proof (cases "msg_type msg = Some ''noteData''")
  case True
  then show ?thesis
    using assms schedule_notes_threads[of thread "dict_get (currentTime msg) 0"
        "dict_get (currentNotes msg) []" _ "[]"]
    by (simp add: process_message_def Let_def)
next
  case False
  then show ?thesis using assms by (simp add: process_message_def)
qed

text \<open>
  A message all of whose notes have their id in \<^verbatim>\<open>scheduled_notes\<close> starts no
  thread: the clean-up keeps those ids, and the loop skips them.
\<close>

lemma schedule_notes_known:
  "\<forall>n \<in> set ns. note_id n \<in> dom reg \<Longrightarrow>
   schedule_notes t ns (reg, threads) = (reg, threads)"
  by (induction ns) (auto simp: note_id_def Let_def)

lemma reobserved_note_not_rescheduled:
  assumes "\<forall>n \<in> set (dict_get (currentNotes msg) []). note_id n \<in> dom reg"
  shows "snd (process_message msg reg) = []"
proof (cases "msg_type msg = Some ''noteData''")
  case True
  let ?ns = "dict_get (currentNotes msg) []"
  have "\<forall>n \<in> set ?ns. note_id n \<in> dom (reg |` set (map note_id ?ns))"
    using assms by auto
  then show ?thesis using True schedule_notes_known
    by (simp add: process_message_def Let_def)
next
  case False
  then show ?thesis by (simp add: process_message_def)
qed

section \<open>The claims\<close>

text \<open>
  C1. In a PLAYING snapshot, for a lane \<open>L\<close> of 0, 1, 2, 3 with no hold alive, the
  evaluator puts the key of \<open>L\<close> among the actions if and only if the notes of lane
  \<open>L\<close> that are not hit, not missed, may be hit and whose time difference lies in
  [-160, 160] are not none and the first-seen one of minimum absolute time difference
  has it at most 80; otherwise the lane is idle. The response sent is the formatted
  list of actions.
\<close>

theorem press_iff_nearest_accepted:
  assumes "mainState gs = Some ''PLAYING'' \<and> dict_get (isPlaying gs) False"
    and "L \<in> {0, 1, 2, 3}"
    and "\<not> hold_alive active_holds (dict_get (timestamp gs) now) L"
  shows "fst (process_state now gs active_holds)
           = format_actions (fst (snapshot_actions now gs active_holds)) @ [newline]
         \<and> (get_key_for_direction L \<in> set (fst (snapshot_actions now gs active_holds))
              \<longleftrightarrow> spec_press (dict_get (notes_list gs) []) L (dict_get (timestamp gs) now))"
proof -
  let ?ns = "dict_get (notes_list gs) []"
  let ?t = "dict_get (timestamp gs) now"
  have resp: "fst (process_state now gs active_holds)
           = format_actions (fst (snapshot_actions now gs active_holds)) @ [newline]"
    using assms(1) by (simp add: process_state_def split: prod.splits)
  have sa: "snapshot_actions now gs active_holds = analyze_notes ?ns (Some ?t) now active_holds"
    by (simp add: snapshot_actions_def Let_def)
  have "get_key_for_direction L \<in> set (fst (analyze_notes ?ns (Some ?t) now active_holds))
          \<longleftrightarrow> spec_press ?ns L ?t"
  proof (cases "?ns = []")
    case True
    then show ?thesis
      by (simp add: analyze_notes_def spec_press_def spec_choice_def spec_candidates_def)
  next
    case False
    then show ?thesis using lane_in_actions[OF False assms(2)] assms(3) by simp
  qed
  then show ?thesis using resp sa by simp
qed

theorem press_iff_nearest_accepted_witness:
  "(mainState (playing 1000 [tap_note 1 1090, tap_note 1 960, tap_note 1 1040]) = Some ''PLAYING''
      \<and> dict_get (isPlaying (playing 1000 [tap_note 1 1090, tap_note 1 960, tap_note 1 1040])) False)
   \<and> (1::int) \<in> {0, 1, 2, 3}
   \<and> \<not> hold_alive Map.empty
        (dict_get (timestamp (playing 1000 [tap_note 1 1090, tap_note 1 960, tap_note 1 1040])) 0) 1
   \<and> spec_choice (spec_candidates [tap_note 1 1090, tap_note 1 960, tap_note 1 1040] 1 1000) 1000
        = Some (tap_note 1 960)
   \<and> get_key_for_direction 1
        \<in> set (fst (snapshot_actions 0 (playing 1000 [tap_note 1 1090, tap_note 1 960, tap_note 1 1040])
                    Map.empty))"
proof -
  let ?gs = "playing 1000 [tap_note 1 1090, tap_note 1 960, tap_note 1 1040]"
  have p: "mainState ?gs = Some ''PLAYING'' \<and> dict_get (isPlaying ?gs) False"
    by (simp add: playing_def dict_get_def)
  have l: "(1::int) \<in> {0, 1, 2, 3}" by simp
  have h: "\<not> hold_alive Map.empty (dict_get (timestamp ?gs) 0) 1"
    by (simp add: hold_alive_def)
  have c: "spec_choice (spec_candidates [tap_note 1 1090, tap_note 1 960, tap_note 1 1040] 1 1000) 1000
        = Some (tap_note 1 960)"
    by (simp add: spec_choice_def spec_candidates_def time_difference_def tap_note_def dict_get_def)
  have s: "spec_press (dict_get (notes_list ?gs) []) 1 (dict_get (timestamp ?gs) 0)"
    using c by (simp add: spec_press_def playing_def dict_get_def time_difference_def tap_note_def)
  show ?thesis
    using press_iff_nearest_accepted[OF p l h] p l h c s by (simp only: simp_thms)
qed

text \<open>
  C2, as stated, fails. A hold note of length 50 with its own conductor time 1000 is
  accepted in a snapshot of timestamp 1010: the end time of the hold is 1210, counted
  from the snapshot's timestamp, and not 1200, counted from the note's conductor time.
\<close>

theorem hold_end_from_note_conductor_time_counterexample:
  "map_option end_time
     (snd (snapshot_actions 0 (playing 1010 [hold_note 0 1000 1000 50]) Map.empty) 0) = Some 1210
   \<and> spec_hold_end_time 1010 (hold_note 0 1000 1000 50) = 1200"
  by (simp add: snapshot_actions_def playing_def analyze_notes_def lane_step_def
      release_expired_def hold_note_def dict_get_def HIT_WINDOW_MS_def
      get_key_for_direction_def direction_map_def spec_hold_end_time_def Let_def)

text \<open>
  C2, amended. When the evaluator accepts a hold note for a lane, the hold it records
  starts at the snapshot's timestamp \<open>T\<close> and ends at \<open>T\<close> plus the larger of the
  note's length and 200 ms, whether or not the note carries a conductor time of its own.
\<close>

theorem hold_end_from_snapshot_time:
  assumes "L \<in> {0, 1, 2, 3}"
    and "\<not> hold_alive active_holds (dict_get (timestamp gs) now) L"
    and "spec_choice (spec_candidates (dict_get (notes_list gs) []) L (dict_get (timestamp gs) now))
           (dict_get (timestamp gs) now) = Some n"
    and "\<bar>time_difference (dict_get (timestamp gs) now) n\<bar> \<le> 80"
    and "dict_get (isHoldNote n) False"
  shows "snd (snapshot_actions now gs active_holds) L =
           Some \<lparr>start_time = dict_get (timestamp gs) now,
                 end_time = dict_get (timestamp gs) now + max (dict_get (length_ms n) 0) 200,
                 held_note = n\<rparr>"
proof -
  let ?ns = "dict_get (notes_list gs) []"
  let ?t = "dict_get (timestamp gs) now"
  have ne: "?ns \<noteq> []" using assms(3) by (auto simp: spec_choice_def spec_candidates_def)
  have free: "release_expired ?t active_holds L = None"
    using assms(2) by (simp add: release_expired_None_iff)
  have key: "get_key_for_direction L \<noteq> ''none''" using assms(1) by (auto simp: key_for_lane)
  have "snd (analyze_notes ?ns (Some ?t) now active_holds) L
          = snd (lane_step ?ns ?t ([], release_expired ?t active_holds) L) L"
    by (rule lane_hold_after[OF ne assms(1)])
  also have "\<dots> = Some \<lparr>start_time = ?t, end_time = ?t + max (dict_get (length_ms n) 0) 200,
                 held_note = n\<rparr>"
    using lane_step_hold[where hs = "release_expired ?t active_holds" and d = L and ns = ?ns and t = ?t and n = n, OF free assms(3) key] assms(4,5) by simp
  finally show ?thesis by (simp add: snapshot_actions_def Let_def)
qed

theorem hold_end_from_snapshot_time_witness:
  "(0::int) \<in> {0, 1, 2, 3}
   \<and> \<not> hold_alive Map.empty (dict_get (timestamp (playing 1010 [hold_note 0 1000 1000 50])) 0) 0
   \<and> spec_choice (spec_candidates (dict_get (notes_list (playing 1010 [hold_note 0 1000 1000 50])) [])
         0 (dict_get (timestamp (playing 1010 [hold_note 0 1000 1000 50])) 0))
         (dict_get (timestamp (playing 1010 [hold_note 0 1000 1000 50])) 0)
       = Some (hold_note 0 1000 1000 50)
   \<and> \<bar>time_difference (dict_get (timestamp (playing 1010 [hold_note 0 1000 1000 50])) 0)
         (hold_note 0 1000 1000 50)\<bar> \<le> 80
   \<and> dict_get (isHoldNote (hold_note 0 1000 1000 50)) False
   \<and> snd (snapshot_actions 0 (playing 1010 [hold_note 0 1000 1000 50]) Map.empty) 0
       = Some \<lparr>start_time = 1010, end_time = 1210, held_note = hold_note 0 1000 1000 50\<rparr>"
proof -
  let ?n = "hold_note 0 1000 1000 50"
  let ?gs = "playing 1010 [?n]"
  have t: "dict_get (timestamp ?gs) 0 = 1010" and ns: "dict_get (notes_list ?gs) [] = [?n]"
    by (simp_all add: playing_def dict_get_def)
  have l: "(0::int) \<in> {0, 1, 2, 3}" by simp
  have h: "\<not> hold_alive Map.empty (dict_get (timestamp ?gs) 0) 0"
    by (simp add: hold_alive_def)
  have c: "spec_choice (spec_candidates (dict_get (notes_list ?gs) []) 0 (dict_get (timestamp ?gs) 0))
         (dict_get (timestamp ?gs) 0) = Some ?n"
    unfolding t ns
    by (simp add: spec_choice_def spec_candidates_def time_difference_def hold_note_def dict_get_def)
  have d: "\<bar>time_difference (dict_get (timestamp ?gs) 0) ?n\<bar> \<le> 80"
    unfolding t by (simp add: time_difference_def hold_note_def dict_get_def)
  have i: "dict_get (isHoldNote ?n) False" by (simp add: hold_note_def dict_get_def)
  have m: "max (dict_get (length_ms ?n) 0) 200 = 200" by (simp add: hold_note_def dict_get_def)
  show ?thesis
    using hold_end_from_snapshot_time[OF l h c d i] l h c d i unfolding t m by simp
qed

text \<open>
  C3. For every snapshot whose \<open>mainState\<close> is not PLAYING or whose \<open>isPlaying\<close> is
  false or absent, the response is the line \<open>none\<close> and no hold is left in the tracker.
\<close>

theorem not_playing_clears:
  assumes "mainState gs \<noteq> Some ''PLAYING'' \<or> \<not> dict_get (isPlaying gs) False"
  shows "process_state now gs active_holds = (''none'' @ [newline], Map.empty)"
  using assms by (auto simp: process_state_def)

theorem not_playing_clears_witness:
  "mainState waiting \<noteq> Some ''PLAYING''
   \<and> process_state 0 waiting [0 \<mapsto> hold_until 1500] = (''none'' @ [newline], Map.empty)"
proof -
  have h: "mainState waiting \<noteq> Some ''PLAYING'' \<or> \<not> dict_get (isPlaying waiting) False"
    by (simp add: waiting_def)
  show ?thesis
    using not_playing_clears[OF h, of 0 "[0 \<mapsto> hold_until 1500]"]
    by (simp add: waiting_def)
qed

text \<open>
  C4 says that a lane leaves the holding state exactly when the current conductor time
  has reached the end time of its hold. The code departs from it on a PLAYING snapshot
  whose notes are empty: \<^verbatim>\<open>analyze_notes\<close> returns before the expiry loop, and the
  hold of lane 0, which ended at 1500, is still in the tracker at time 1600.
\<close>

theorem expired_hold_kept_on_empty_notes:
  "\<not> hold_alive [0 \<mapsto> hold_until 1500] 1600 0
   \<and> snd (process_state 0 (playing 1600 []) [0 \<mapsto> hold_until 1500]) 0 = Some (hold_until 1500)"
  by (simp add: hold_alive_def hold_until_def process_state_def snapshot_actions_def
      analyze_notes_def playing_def dict_get_def)

text \<open>
  C5 says that every lane whose hold is alive is reported as held, also when the notes
  of the snapshot are empty. The code departs from it: with empty notes the response is
  \<open>none\<close> although the hold of lane 0 is alive at time 1100.
\<close>

theorem live_hold_dropped_on_empty_notes:
  "hold_alive [0 \<mapsto> hold_until 1500] 1100 0
   \<and> fst (process_state 0 (playing 1100 []) [0 \<mapsto> hold_until 1500]) = ''none'' @ [newline]"
  by (simp add: hold_alive_def hold_until_def process_state_def snapshot_actions_def
      analyze_notes_def playing_def dict_get_def format_actions_def)

text \<open>
  C6 says that two notes that differ in strum time or direction are distinct
  identities. The code departs from it: the id is ten times the strum time plus the
  direction, so the notes (100.1, 0) and (100, 1) have the same id 1001, and of two such
  notes in one message, both inside the horizon, only the first gets a thread.
\<close>

theorem note_id_collision:
  "snd (process_message (note_data 50 [client_note 0 (1001 / 10) False, client_note 1 100 False])
          Map.empty) = [(0, 201 / 10)]
   \<and> (strumTime (client_note 0 (1001 / 10) False), direction (client_note 0 (1001 / 10) False))
       \<noteq> (strumTime (client_note 1 100 False), direction (client_note 1 100 False))
   \<and> note_id (client_note 0 (1001 / 10) False) = note_id (client_note 1 100 False)
   \<and> schedulable 50 (client_note 1 100 False)"
  by (simp add: process_message_def note_data_def client_note_def dict_get_def note_id_def
      schedulable_def Let_def)

text \<open>
  C7. A thread is started only for a note whose strum time is between 0 and 150 ms
  after the current time of the message; its delay is the larger of 0 and that
  difference less 30 ms; the thread sleeps for the delay, sends the press, sleeps
  60 ms and sends the release.
\<close>

theorem press_delay_and_release:
  assumes "(d, hit_delay) \<in> set (snd (process_message msg scheduled_notes))"
  shows "(\<exists>n \<in> set (dict_get (currentNotes msg) []).
            d = dict_get (direction n) 0
            \<and> 0 \<le> dict_get (strumTime n) 0 - dict_get (currentTime msg) 0
            \<and> dict_get (strumTime n) 0 - dict_get (currentTime msg) 0 \<le> 150
            \<and> hit_delay = max 0 (dict_get (strumTime n) 0 - dict_get (currentTime msg) 0 - 30))
         \<and> hit_note d hit_delay =
             [Sleep (hit_delay / 1000), Send \<lparr>keyCode = d, pressed = True\<rparr>,
              Sleep (60 / 1000), Send \<lparr>keyCode = d, pressed = False\<rparr>]"
  using process_message_threads[OF assms]
  by (auto simp: schedulable_def thread_args_def hit_note_def Let_def)

theorem press_delay_and_release_witness:
  "(2, 70) \<in> set (snd (process_message (note_data 1000 [client_note 2 1100 False]) Map.empty))
   \<and> hit_note 2 70 =
       [Sleep (70 / 1000), Send \<lparr>keyCode = 2, pressed = True\<rparr>,
        Sleep (60 / 1000), Send \<lparr>keyCode = 2, pressed = False\<rparr>]
   \<and> snd (process_message (note_data 1000 [client_note 2 1151 False]) Map.empty) = []"
proof -
  have h: "(2, 70) \<in> set (snd (process_message (note_data 1000 [client_note 2 1100 False]) Map.empty))"
    by (simp add: process_message_def note_data_def client_note_def dict_get_def Let_def)
  have e: "snd (process_message (note_data 1000 [client_note 2 1151 False]) Map.empty) = []"
    by (simp add: process_message_def note_data_def client_note_def dict_get_def Let_def)
  show ?thesis using press_delay_and_release[OF h] h e by simp
qed

text \<open>
  C8, as stated, fails. A note whose \<open>hasBeenHit\<close> is true, which may be hit, is not
  missed and not too early, gets a thread.
\<close>

theorem hit_note_scheduled_counterexample:
  "hasBeenHit (client_note 2 1100 True) = Some True
   \<and> snd (process_message (note_data 1000 [client_note 2 1100 True]) Map.empty) = [(2, 70)]"
  by (simp add: process_message_def note_data_def client_note_def dict_get_def Let_def)

text \<open>
  C8, amended. The client starts a thread only for a note whose \<open>mayHit\<close> is true,
  whose \<open>hasMissed\<close> is false and whose \<open>tooEarly\<close> is present and false; it does
  not read \<open>hasBeenHit\<close>.
\<close>

theorem scheduled_only_when_flags_allow:
  assumes "thread \<in> set (snd (process_message msg scheduled_notes))"
  shows "\<exists>n \<in> set (dict_get (currentNotes msg) []).
           thread = thread_args (dict_get (currentTime msg) 0) n
           \<and> dict_get (mayHit n) False \<and> \<not> dict_get (hasMissed n) False
           \<and> \<not> dict_get (tooEarly n) True"
  using process_message_threads[OF assms] by (auto simp: schedulable_def)

theorem scheduled_only_when_flags_allow_witness:
  "(2, 70) \<in> set (snd (process_message (note_data 1000 [client_note 2 1100 True]) Map.empty))
   \<and> (\<exists>n \<in> set (dict_get (currentNotes (note_data 1000 [client_note 2 1100 True])) []).
           (2, 70) = thread_args (dict_get (currentTime (note_data 1000 [client_note 2 1100 True])) 0) n
           \<and> dict_get (mayHit n) False \<and> \<not> dict_get (hasMissed n) False
           \<and> \<not> dict_get (tooEarly n) True)"
proof -
  have h: "(2, 70) \<in> set (snd (process_message (note_data 1000 [client_note 2 1100 True]) Map.empty))"
    by (simp add: process_message_def note_data_def client_note_def dict_get_def Let_def)
  show ?thesis using scheduled_only_when_flags_allow[OF h] h by (simp only: simp_thms)
qed



text \<open>
  C10. Both readers, fed \<open>a\<close>, then \<open>bc\<close> with a newline, then \<open>d\<close> with a
  newline, yield nothing, then \<open>abc\<close>, then \<open>d\<close>, and end with an empty buffer.
  No line yielded contains the newline or is blank, the buffer kept is the text after
  the last newline, and the server yields the client's lines, stripped.
\<close>

theorem frame_reader_lines:
  "server_feed [] ''a'' = ([], ''a'')
   \<and> server_feed ''a'' (''bc'' @ [newline]) = ([''abc''], [])
   \<and> server_feed [] (''d'' @ [newline]) = ([''d''], [])
   \<and> client_feed [] ''a'' = ([], ''a'')
   \<and> client_feed ''a'' (''bc'' @ [newline]) = ([''abc''], [])
   \<and> client_feed [] (''d'' @ [newline]) = ([''d''], [])
   \<and> (\<forall>line \<in> set (fst (server_feed buffer data)). newline \<notin> set line \<and> strip line \<noteq> [])
   \<and> (\<forall>line \<in> set (fst (client_feed buffer data)). newline \<notin> set line \<and> strip line \<noteq> [])
   \<and> snd (server_feed buffer data) = rev (takeWhile (\<lambda>c. c \<noteq> newline) (rev (buffer @ data)))
   \<and> snd (client_feed buffer data) = rev (takeWhile (\<lambda>c. c \<noteq> newline) (rev (buffer @ data)))
   \<and> fst (server_feed buffer data) = map strip (fst (client_feed buffer data))"
proof -
  have m: "fst (server_feed buffer data) = map strip (fst (client_feed buffer data))"
    by (simp add: server_feed_split client_feed_def Let_def)
  have ex_s: "server_feed [] ''a'' = ([], ''a'')"
    "server_feed ''a'' (''bc'' @ [newline]) = ([''abc''], [])"
    "server_feed [] (''d'' @ [newline]) = ([''d''], [])"
    by (simp_all add: server_feed_split newline_def strip_def is_space_def)
  have ex_c: "client_feed [] ''a'' = ([], ''a'')"
    "client_feed ''a'' (''bc'' @ [newline]) = ([''abc''], [])"
    "client_feed [] (''d'' @ [newline]) = ([''d''], [])"
    by (simp_all add: client_feed_def newline_def strip_def is_space_def)
  have s: "\<forall>line \<in> set (fst (server_feed buffer data)). newline \<notin> set line \<and> strip line \<noteq> []"
    using butlast_split_nl_no_newline set_strip
    by (fastforce simp: server_feed_split strip_idem)
  have c: "\<forall>line \<in> set (fst (client_feed buffer data)). newline \<notin> set line \<and> strip line \<noteq> []"
    using butlast_split_nl_no_newline by (auto simp: client_feed_def Let_def)
  have r: "snd (server_feed buffer data) = rev (takeWhile (\<lambda>c. c \<noteq> newline) (rev (buffer @ data)))"
    "snd (client_feed buffer data) = rev (takeWhile (\<lambda>c. c \<noteq> newline) (rev (buffer @ data)))"
    by (simp_all only: server_feed_split client_feed_def Let_def snd_conv last_split_nl)
  show ?thesis using ex_s ex_c s c r m by (simp only: simp_thms)
qed

theorem frame_reader_lines_witness:
  "fst (server_feed ''x'' (''y'' @ [newline] @ '' '' @ [newline] @ ''z'')) = [''xy'']
   \<and> fst (client_feed ''x'' (''y'' @ [newline] @ '' '' @ [newline] @ ''z'')) = [''xy'']
   \<and> newline \<notin> set ''xy'' \<and> strip ''xy'' \<noteq> []
   \<and> snd (server_feed ''x'' (''y'' @ [newline] @ '' '' @ [newline] @ ''z'')) = ''z''
   \<and> snd (client_feed ''x'' (''y'' @ [newline] @ '' '' @ [newline] @ ''z'')) = ''z''"
proof -
  have a: "fst (server_feed ''x'' (''y'' @ [newline] @ '' '' @ [newline] @ ''z'')) = [''xy'']"
    by (simp add: server_feed_split newline_def strip_def is_space_def)
  have b: "fst (client_feed ''x'' (''y'' @ [newline] @ '' '' @ [newline] @ ''z'')) = [''xy'']"
    by (simp add: client_feed_def newline_def strip_def is_space_def)
  have c: "rev (takeWhile (\<lambda>c. c \<noteq> newline)
             (rev (''x'' @ (''y'' @ [newline] @ '' '' @ [newline] @ ''z'')))) = ''z''"
    by (simp add: newline_def)
  show ?thesis
    using frame_reader_lines[of "''x''" "''y'' @ [newline] @ '' '' @ [newline] @ ''z''"]
    unfolding a b c by simp
qed

end
